theory Spec2Isabelle
  imports Main "HOL-Library.Word"
begin

unbundle bit_operations_syntax

section \<open>Memory\<close>

text \<open>
  The allocator of \<^verbatim>\<open>MemoryManager.h\<close> works on raw memory through
  \<^verbatim>\<open>uintptr_t*\<close> and \<^verbatim>\<open>unsigned char*\<close> casts. Addresses and \<^verbatim>\<open>size_t\<close> values are
  64-bit words (the source: "sizeof(void*) = 64 bits"), bytes are 8-bit words. Memory is a
  function from addresses to bytes; a \<^verbatim>\<open>uintptr_t\<close> occupies eight consecutive bytes,
  least significant byte first.
\<close>

type_synonym uintptr = "64 word"
type_synonym byte = "8 word"

definition rd64 :: "(uintptr \<Rightarrow> byte) \<Rightarrow> uintptr \<Rightarrow> uintptr" where
  "rd64 m a =
     fold (\<lambda>k acc. acc OR push_bit (8 * k) (ucast (m (a + of_nat k)))) [0, 1, 2, 3, 4, 5, 6, 7] 0"

definition wr64 :: "(uintptr \<Rightarrow> byte) \<Rightarrow> uintptr \<Rightarrow> uintptr \<Rightarrow> (uintptr \<Rightarrow> byte)" where
  "wr64 m a v = (\<lambda>x. if x - a < 8 then ucast (drop_bit (8 * unat (x - a)) v) else m x)"

section \<open>The allocator's state\<close>

text \<open>
  \<open>mNumBlocksPerPool\<close> (an \<^verbatim>\<open>unsigned int\<close>) and \<open>mPool\<close> (the
  \<^verbatim>\<open>unordered_map<size_t, void*>\<close>) are the two members of the class. \<open>heap\<close> is the
  content of memory and \<open>owned\<close> tells which bytes lie inside an array obtained from
  \<^verbatim>\<open>new char[...]\<close> by this allocator. \<^verbatim>\<open>new[]\<close> does not initialise the array: the
  bytes keep whatever \<open>heap\<close> held before.
\<close>

record MemoryManager =
  mNumBlocksPerPool :: "32 word"
  mPool :: "uintptr \<rightharpoonup> uintptr"
  heap :: "uintptr \<Rightarrow> byte"
  owned :: "uintptr \<Rightarrow> bool"

text \<open>
  The three early returns of the source, named after their diagnostics
  ("Pool exhausted!", "Invalid pointer passed", "Attempting a double free!"). The source has
  no other failure path.
\<close>

datatype error = PoolExhausted | InvalidPointer | DoubleFree

text \<open>
  An access outside every owned array is undefined behaviour in C++; the model makes it the
  result \<open>None\<close> of the whole operation.
\<close>

definition owned64 :: "MemoryManager \<Rightarrow> uintptr \<Rightarrow> bool" where
  "owned64 s a = list_all (\<lambda>k. owned s (a + of_nat k)) [0, 1, 2, 3, 4, 5, 6, 7]"

definition load8 :: "MemoryManager \<Rightarrow> uintptr \<Rightarrow> byte option" where
  "load8 s a = (if owned s a then Some (heap s a) else None)"

definition store8 :: "MemoryManager \<Rightarrow> uintptr \<Rightarrow> byte \<Rightarrow> MemoryManager option" where
  "store8 s a v = (if owned s a then Some (s\<lparr>heap := (heap s)(a := v)\<rparr>) else None)"

definition load64 :: "MemoryManager \<Rightarrow> uintptr \<Rightarrow> uintptr option" where
  "load64 s a = (if owned64 s a then Some (rd64 (heap s) a) else None)"

definition store64 :: "MemoryManager \<Rightarrow> uintptr \<Rightarrow> uintptr \<Rightarrow> MemoryManager option" where
  "store64 s a v = (if owned64 s a then Some (s\<lparr>heap := wr64 (heap s) a v\<rparr>) else None)"

text \<open>
  \<^verbatim>\<open>mPool[key]\<close>: \<^verbatim>\<open>operator[]\<close> of \<^verbatim>\<open>unordered_map\<close> inserts a null entry for a key
  that is absent and returns it.
\<close>

definition mPool_index :: "uintptr \<Rightarrow> MemoryManager \<Rightarrow> uintptr \<times> MemoryManager" where
  "mPool_index key s =
     (case mPool s key of
        Some v \<Rightarrow> (v, s)
      | None \<Rightarrow> (0, s\<lparr>mPool := (mPool s)(key \<mapsto> 0)\<rparr>))"

section \<open>InitializePool\<close>

text \<open>
  \<^verbatim>\<open>new char[(size * numBlocks) + sizeof(void*) + (numBlocks / NUMBITSPERBYTE) + 1]\<close>,
  computed in \<^verbatim>\<open>size_t\<close>.
\<close>

definition region_len :: "uintptr \<Rightarrow> 16 word \<Rightarrow> uintptr" where
  "region_len sz numBlocks = sz * ucast numBlocks + 8 + ucast (numBlocks div 8) + 1"

text \<open>
  The loop \<^verbatim>\<open>for (int iteration = 1; iteration < numBlocks; ++iteration)\<close>: the first
  argument counts the iterations left, \<open>st\<close> is the stride in bytes.
\<close>

fun link_blocks :: "nat \<Rightarrow> uintptr \<Rightarrow> uintptr \<Rightarrow> MemoryManager \<Rightarrow> (uintptr \<times> MemoryManager) option" where
  "link_blocks 0 cur st s = Some (cur, s)"
| "link_blocks (Suc k) cur st s =
     (case store64 s cur (cur + st) of
        None \<Rightarrow> None
      | Some s' \<Rightarrow> link_blocks k (cur + st) st s')"

text \<open>
  \<open>p\<close> is the address \<^verbatim>\<open>new\<close> returns (the environment's choice) and \<open>sz\<close> the
  parameter \<^verbatim>\<open>size\<close>. \<open>numBlocks\<close> is a
  \<^verbatim>\<open>uint16_t\<close> and \<open>stride\<close> a \<^verbatim>\<open>uint8_t\<close>, as in the source; adding \<open>stride\<close> to a
  \<^verbatim>\<open>uintptr_t*\<close> moves it by \<open>8 * stride\<close> bytes.
\<close>

definition InitializePool :: "uintptr \<Rightarrow> uintptr \<Rightarrow> 16 word \<Rightarrow> MemoryManager \<Rightarrow> MemoryManager option" where
  "InitializePool p sz numBlocks s =
     (let s1 = s\<lparr>mPool := (mPool s)(sz \<mapsto> p),
                 owned := (\<lambda>a. owned s a \<or> a - p < region_len sz numBlocks)\<rparr>;
          stride = (ucast (sz div 8) :: 8 word);
          st = 8 * (ucast stride :: uintptr)
      in case link_blocks (unat numBlocks - 1) p st s1 of
           None \<Rightarrow> None
         | Some (cur, s2) \<Rightarrow>
             (case store64 s2 cur 0 of
                None \<Rightarrow> None
              | Some s3 \<Rightarrow> store64 s3 (cur + st) p))"

section \<open>The constructor\<close>

text \<open>
  \<^verbatim>\<open>MemoryManager(unsigned int numBlocksPerPool = 10)\<close> calls
  \<^verbatim>\<open>InitializePool(pow(2, exponent), numBlocksPerPool)\<close> for the exponents 3, 4 and 5; the
  \<^verbatim>\<open>unsigned int\<close> is converted to the \<^verbatim>\<open>uint16_t\<close> parameter. \<open>raw\<close> is the content of
  memory before the construction, \<open>p3\<close>, \<open>p4\<close>, \<open>p5\<close> the addresses the three
  \<^verbatim>\<open>new\<close> return.
\<close>

definition MemoryManager_init ::
  "uintptr \<Rightarrow> uintptr \<Rightarrow> uintptr \<Rightarrow> (uintptr \<Rightarrow> byte) \<Rightarrow> 32 word \<Rightarrow> MemoryManager option" where
  "MemoryManager_init p3 p4 p5 raw numBlocksPerPool =
     (let s = \<lparr>mNumBlocksPerPool = numBlocksPerPool, mPool = Map.empty,
                heap = raw, owned = (\<lambda>a. False)\<rparr>
      in case InitializePool p3 (2 ^ 3) (ucast numBlocksPerPool) s of
           None \<Rightarrow> None
         | Some s3 \<Rightarrow>
             (case InitializePool p4 (2 ^ 4) (ucast numBlocksPerPool) s3 of
                None \<Rightarrow> None
              | Some s4 \<Rightarrow> InitializePool p5 (2 ^ 5) (ucast numBlocksPerPool) s4))"

section \<open>Allocate\<close>

text \<open>
  \<open>dataTypeSize\<close> is \<^verbatim>\<open>sizeof(T)\<close>. The result is the returned pointer
  (\<open>Inl PoolExhausted\<close> for the \<^verbatim>\<open>nullptr\<close> of the exhausted pool) and the state after the
  call. \<open>p\<close> is the address \<^verbatim>\<open>new\<close> returns if the pool has to be created.
\<close>

definition bit_mask :: "32 word \<Rightarrow> byte" where
  "bit_mask index = push_bit (8 - unat (index mod 8) - 1) 1"

definition Allocate ::
  "uintptr \<Rightarrow> uintptr \<Rightarrow> MemoryManager \<Rightarrow> ((error + uintptr) \<times> MemoryManager) option" where
  "Allocate p dataTypeSize s0 =
     (let (v, s1) = mPool_index dataTypeSize s0 in
      case (if v = 0 then InitializePool p dataTypeSize (ucast (mNumBlocksPerPool s1)) s1
            else Some s1) of
        None \<Rightarrow> None
      | Some s \<Rightarrow>
         (let firstElementPtr = fst (mPool_index dataTypeSize s);
              lastElementPtr =
                firstElementPtr + 8 * ((dataTypeSize div 8) * ucast (mNumBlocksPerPool s))
          in case load64 s lastElementPtr of
               None \<Rightarrow> None
             | Some firstFreeBlockAddressValue \<Rightarrow>
                 if firstFreeBlockAddressValue = 0 then Some (Inl PoolExhausted, s)
                 else
                   (let indexBlockAllocated =
                          (ucast ((firstFreeBlockAddressValue - firstElementPtr) div dataTypeSize)
                             :: 32 word);
                        desiredByte = lastElementPtr + 8 + ucast (indexBlockAllocated div 8)
                    in case load8 s desiredByte of
                         None \<Rightarrow> None
                       | Some b \<Rightarrow>
                          (case store8 s desiredByte (b OR bit_mask indexBlockAllocated) of
                             None \<Rightarrow> None
                           | Some s2 \<Rightarrow>
                              (case load64 s2 firstFreeBlockAddressValue of
                                 None \<Rightarrow> None
                               | Some next \<Rightarrow>
                                  (case store64 s2 lastElementPtr next of
                                     None \<Rightarrow> None
                                   | Some s3 \<Rightarrow> Some (Inr firstFreeBlockAddressValue, s3)))))))"

section \<open>Free\<close>

text \<open>
  \<open>block\<close> is \<^verbatim>\<open>*ppBlock\<close> before the call. The result is the outcome, the state and
  \<^verbatim>\<open>*ppBlock\<close> after the call.
\<close>

definition Free ::
  "uintptr \<Rightarrow> uintptr \<Rightarrow> MemoryManager \<Rightarrow> ((error + unit) \<times> MemoryManager \<times> uintptr) option" where
  "Free dataTypeSize block s0 =
     (if block = 0 then Some (Inl InvalidPointer, s0, block)
      else
        (let (firstElementPtr, s) = mPool_index dataTypeSize s0;
             lastElementPtr =
               firstElementPtr + 8 * ((dataTypeSize div 8) * ucast (mNumBlocksPerPool s));
             indexBlockAllocated =
               (ucast ((block - firstElementPtr) div dataTypeSize) :: 32 word);
             desiredByte = lastElementPtr + 8 + ucast (indexBlockAllocated div 8)
         in case load8 s desiredByte of
              None \<Rightarrow> None
            | Some b \<Rightarrow>
                if b AND bit_mask indexBlockAllocated = 0 then Some (Inl DoubleFree, s, block)
                else
                  (case store8 s desiredByte (b XOR bit_mask indexBlockAllocated) of
                     None \<Rightarrow> None
                   | Some s2 \<Rightarrow>
                      (case load64 s2 lastElementPtr of
                         None \<Rightarrow> None
                       | Some head \<Rightarrow>
                          (case store64 s2 block head of
                             None \<Rightarrow> None
                           | Some s3 \<Rightarrow>
                              (case store64 s3 lastElementPtr block of
                                 None \<Rightarrow> None
                               | Some s4 \<Rightarrow> Some (Inr (), s4, 0)))))))"

section \<open>Repeated allocation and the layout of a pool\<close>

text \<open>
  The loop of \<^verbatim>\<open>Main.cpp\<close>, \<^verbatim>\<open>for (...) ptr[index] = memoryManager->Allocate<Dummy>();\<close>:
  \<open>k\<close> calls in a row, the returned pointers collected in order.
\<close>

fun Allocate_n ::
  "nat \<Rightarrow> uintptr \<Rightarrow> uintptr \<Rightarrow> MemoryManager \<Rightarrow> ((error + uintptr) list \<times> MemoryManager) option" where
  "Allocate_n 0 p dataTypeSize s = Some ([], s)"
| "Allocate_n (Suc k) p dataTypeSize s =
     (case Allocate p dataTypeSize s of
        None \<Rightarrow> None
      | Some (r, s') \<Rightarrow>
          (case Allocate_n k p dataTypeSize s' of
             None \<Rightarrow> None
           | Some (rs, s'') \<Rightarrow> Some (r # rs, s'')))"

text \<open>
  The layout \<open>InitializePool\<close> and \<open>Allocate\<close> maintain in a pool at \<open>p\<close> whose blocks
  are \<open>w\<close> bytes apart, \<open>n\<close> blocks, after \<open>k\<close> allocations: the array is owned, the slot
  behind the blocks holds the address of block \<open>k\<close> (null when none is left), and block
  \<open>i\<close> holds the address of block \<open>i + 1\<close> (the last one null).
\<close>

definition pool_state :: "uintptr \<Rightarrow> nat \<Rightarrow> nat \<Rightarrow> nat \<Rightarrow> MemoryManager \<Rightarrow> bool" where
  "pool_state p w n k s =
     ((\<forall>x < w * n + 8 + n div 8 + 1. owned s (p + of_nat x)) \<and>
      rd64 (heap s) (p + of_nat (w * n)) = (if k < n then p + of_nat (w * k) else 0) \<and>
      (\<forall>i<n. rd64 (heap s) (p + of_nat (w * i)) =
                (if i + 1 < n then p + of_nat (w * (i + 1)) else 0)))"

text \<open>
  The address arithmetic \<open>Allocate\<close> and \<open>Free\<close> share: \<^verbatim>\<open>lastElementPtr\<close> (the slot
  behind the blocks, which holds the head of the free list), \<^verbatim>\<open>indexBlockAllocated\<close> and
  \<^verbatim>\<open>desiredByte\<close>, as functions of the pool's base address, the block size and an address.
\<close>

definition lastElementPtr :: "MemoryManager \<Rightarrow> uintptr \<Rightarrow> uintptr \<Rightarrow> uintptr" where
  "lastElementPtr s firstElementPtr dataTypeSize =
     firstElementPtr + 8 * ((dataTypeSize div 8) * ucast (mNumBlocksPerPool s))"

definition indexBlockAllocated :: "uintptr \<Rightarrow> uintptr \<Rightarrow> uintptr \<Rightarrow> 32 word" where
  "indexBlockAllocated firstElementPtr dataTypeSize block =
     ucast ((block - firstElementPtr) div dataTypeSize)"

definition desiredByte :: "MemoryManager \<Rightarrow> uintptr \<Rightarrow> uintptr \<Rightarrow> uintptr \<Rightarrow> uintptr" where
  "desiredByte s firstElementPtr dataTypeSize block =
     lastElementPtr s firstElementPtr dataTypeSize + 8 +
     ucast (indexBlockAllocated firstElementPtr dataTypeSize block div 8)"

text \<open>
  Two observers: the content of the slot behind the blocks, and the bit
  \<^verbatim>\<open>*desiredByte & (1 << shiftValue)\<close> that \<open>Free\<close> tests for an address.
\<close>

definition free_list_head :: "MemoryManager \<Rightarrow> uintptr \<Rightarrow> uintptr option" where
  "free_list_head s dataTypeSize =
     (case mPool s dataTypeSize of
        None \<Rightarrow> None
      | Some firstElementPtr \<Rightarrow> load64 s (lastElementPtr s firstElementPtr dataTypeSize))"

definition allocation_bit :: "MemoryManager \<Rightarrow> uintptr \<Rightarrow> uintptr \<Rightarrow> bool option" where
  "allocation_bit s dataTypeSize block =
     (case mPool s dataTypeSize of
        None \<Rightarrow> None
      | Some firstElementPtr \<Rightarrow>
          (case load8 s (desiredByte s firstElementPtr dataTypeSize block) of
             None \<Rightarrow> None
           | Some b \<Rightarrow>
               Some (b AND bit_mask (indexBlockAllocated firstElementPtr dataTypeSize block) \<noteq> 0)))"

text \<open>
  Two arrays obtained from \<^verbatim>\<open>new\<close>, of \<open>l\<close> bytes at \<open>p\<close> and of \<open>m\<close> bytes at \<open>q\<close>,
  do not overlap; \<open>array_len\<close> is the length \<open>InitializePool\<close> asks for.
\<close>

definition array_len :: "nat \<Rightarrow> nat \<Rightarrow> nat" where
  "array_len sz n = sz * n + 8 + n div 8 + 1"

definition arrays_apart :: "uintptr \<Rightarrow> nat \<Rightarrow> uintptr \<Rightarrow> nat \<Rightarrow> bool" where
  "arrays_apart p l q m = (unat p + l \<le> unat q \<or> unat q + m \<le> unat p)"

section \<open>Words in memory\<close>

lemma bit_byte_part:
  "bit (push_bit k (ucast (ucast (drop_bit k v) :: 8 word)) :: 64 word) n
     = (k \<le> n \<and> n < k + 8 \<and> n < 64 \<and> bit v n)"
  by (auto simp add: bit_simps)

lemma byte_join:
  "fold (\<lambda>k acc. acc OR push_bit (8 * k) (ucast (ucast (drop_bit (8 * k) v) :: 8 word)))
     [0, 1, 2, 3, 4, 5, 6, 7] 0 = (v :: 64 word)"
proof -
  have z: "ucast (ucast v :: 8 word) = (push_bit 0 (ucast (ucast (drop_bit 0 v) :: 8 word)) :: 64 word)"
    by simp
  show ?thesis
    apply (simp del: push_bit_of_0 drop_bit_of_0)
    apply (subst z)
    apply (rule bit_word_eqI)
    apply (simp only: bit_or_iff bit_byte_part)
    subgoal for n
      apply (cases "bit v n")
       apply simp
       apply arith
      apply simp
      done
    done
qed

lemma rd64_wr64_same: "rd64 (wr64 m a v) a = v"
proof -
  have "rd64 (wr64 m a v) a =
      fold (\<lambda>k acc. acc OR push_bit (8 * k) (ucast (ucast (drop_bit (8 * k) v) :: 8 word)))
        [0, 1, 2, 3, 4, 5, 6, 7] 0"
    by (simp add: rd64_def wr64_def)
  then show ?thesis by (simp only: byte_join)
qed

lemma rd64_cong:
  assumes "\<And>k. k < 8 \<Longrightarrow> m (a + of_nat k) = m' (a + of_nat k)"
  shows "rd64 m a = rd64 m' a"
  using assms[of 0] assms[of 1] assms[of 2] assms[of 3] assms[of 4] assms[of 5] assms[of 6] assms[of 7]
  by (simp add: rd64_def)

lemma owned64_iff: "owned64 s a = (\<forall>k<8. owned s (a + of_nat k))"
proof
  assume "owned64 s a"
  then have h: "\<forall>k\<in>{0,1,2,3,4,5,6,7::nat}. owned s (a + of_nat k)"
    by (simp add: owned64_def)
  have "k < 8 \<Longrightarrow> k \<in> {0,1,2,3,4,5,6,7::nat}" for k :: nat by auto
  with h show "\<forall>k<8. owned s (a + of_nat k)" by blast
next
  assume h: "\<forall>k<8. owned s (a + of_nat k)"
  show "owned64 s a"
    using h[rule_format, of 0] h[rule_format, of 1] h[rule_format, of 2] h[rule_format, of 3]
      h[rule_format, of 4] h[rule_format, of 5] h[rule_format, of 6] h[rule_format, of 7]
    by (simp add: owned64_def)
qed

lemma off_diff:
  fixes p :: "64 word"
  assumes "x < 2 ^ 64" "y + l \<le> 2 ^ 64" "l < 2 ^ 64"
  shows "(p + of_nat x - (p + of_nat y) < of_nat l) = (y \<le> x \<and> x < y + l)"
proof -
  have e: "p + of_nat x - (p + of_nat y) = (of_nat x - of_nat y :: 64 word)" by simp
  have y: "y < 2 ^ 64 \<or> l = 0" using assms by arith
  show ?thesis
  proof (cases "l = 0")
    case True then show ?thesis by simp
  next
    case False
    then have "y < 2 ^ 64" using y by simp
    then show ?thesis using assms
      unfolding e
      apply (simp add: word_less_nat_alt unat_sub_if' unat_of_nat) 
      apply arith
      done
  qed
qed

lemma off_diff8:
  fixes p :: "64 word"
  assumes "x < 2 ^ 64" "y + 8 \<le> 2 ^ 64"
  shows "(p + of_nat x - (p + of_nat y) < 8) = (y \<le> x \<and> x < y + 8)"
  using off_diff[OF assms(1) assms(2), of p] by simp

lemma off_eq:
  fixes p :: "64 word"
  assumes "x < 2 ^ 64" "y < 2 ^ 64"
  shows "(p + of_nat x = p + of_nat y) = (x = y)"
proof -
  have "x = y" if "(of_nat x :: 64 word) = of_nat y"
  proof -
    from that have "unat (of_nat x :: 64 word) = unat (of_nat y :: 64 word)" by simp
    then show ?thesis using assms by (simp add: unat_of_nat)
  qed
  then show ?thesis by auto
qed

lemma unat_off:
  fixes p :: "64 word"
  assumes "unat p + x < 2 ^ 64"
  shows "unat (p + of_nat x) = unat p + x"
proof -
  have "x < 2 ^ 64" using assms by arith
  then have "unat (of_nat x :: 64 word) = x" by (simp add: unat_of_nat)
  then show ?thesis using assms by (simp add: unat_word_ariths)
qed

lemma store64_owned:
  assumes "\<forall>k<8. owned s (a + of_nat k)"
  shows "store64 s a v = Some (s\<lparr>heap := wr64 (heap s) a v\<rparr>)"
  using assms by (simp add: store64_def owned64_iff)

lemma load64_owned:
  assumes "\<forall>k<8. owned s (a + of_nat k)"
  shows "load64 s a = Some (rd64 (heap s) a)"
  using assms by (simp add: load64_def owned64_iff)

lemma off_add: "p + of_nat x + of_nat k = (p + of_nat (x + k) :: 64 word)"
  by simp

lemma wr64_frame:
  fixes p :: "64 word"
  assumes "x < 2 ^ 64" "y + 8 \<le> 2 ^ 64" "x < y \<or> y + 8 \<le> x"
  shows "wr64 m (p + of_nat y) v (p + of_nat x) = m (p + of_nat x)"
  using assms off_diff8[of x y p] by (auto simp add: wr64_def)

lemma rd64_frame:
  fixes p :: "64 word"
  assumes "y + 8 \<le> 2 ^ 64"
    and "\<And>x. y \<le> x \<Longrightarrow> x < y + 8 \<Longrightarrow> m (p + of_nat x) = m' (p + of_nat x)"
  shows "rd64 m (p + of_nat y) = rd64 m' (p + of_nat y)"
proof (rule rd64_cong)
  fix k :: nat assume "k < 8"
  then show "m (p + of_nat y + of_nat k) = m' (p + of_nat y + of_nat k)"
    using assms(2)[of "y + k"] by (simp add: add.assoc)
qed

lemma link_blocks_spec:
  fixes p :: "64 word"
  assumes "8 \<le> w" "c + w * k + 8 \<le> 2 ^ 64"
    and "\<forall>x < c + w * k. owned s (p + of_nat x)"
  shows "\<exists>h. link_blocks k (p + of_nat c) (of_nat w) s = Some (p + of_nat (c + w * k), s\<lparr>heap := h\<rparr>)
     \<and> (\<forall>i<k. rd64 h (p + of_nat (c + w * i)) = p + of_nat (c + w * (i + 1)))
     \<and> (\<forall>x<2 ^ 64. x < c \<or> c + w * k \<le> x \<longrightarrow> h (p + of_nat x) = heap s (p + of_nat x))"
  using assms
proof (induction k arbitrary: c s)
  case 0
  show ?case by (rule exI[of _ "heap s"]) simp
next
  case (Suc k)
  let ?s1 = "s\<lparr>heap := wr64 (heap s) (p + of_nat c) (p + of_nat c + of_nat w)\<rparr>"
  have own: "\<forall>j<8. owned s (p + of_nat c + of_nat j)"
  proof (intro allI impI)
    fix j :: nat assume "j < 8"
    moreover have "w \<le> w * Suc k" by simp
    ultimately have "c + j < c + w * Suc k" using Suc.prems(1) by arith
    then show "owned s (p + of_nat c + of_nat j)"
      using Suc.prems(3)[rule_format, of "c + j"] by (simp add: add.assoc)
  qed
  have st: "store64 s (p + of_nat c) (p + of_nat c + of_nat w) = Some ?s1"
    using own by (rule store64_owned)
  have b: "(c + w) + w * k + 8 \<le> 2 ^ 64" using Suc.prems(2) by (simp add: algebra_simps)
  have o1: "\<forall>x < (c + w) + w * k. owned ?s1 (p + of_nat x)"
    using Suc.prems(3) by (simp add: algebra_simps)
  from Suc.IH[OF Suc.prems(1) b o1]
  obtain h where h1: "link_blocks k (p + of_nat (c + w)) (of_nat w) ?s1 = Some (p + of_nat (c + w + w * k), ?s1\<lparr>heap := h\<rparr>)"
    and h2: "\<forall>i<k. rd64 h (p + of_nat (c + w + w * i)) = p + of_nat (c + w + w * (i + 1))"
    and h3: "\<forall>x<2 ^ 64. x < c + w \<or> c + w + w * k \<le> x \<longrightarrow> h (p + of_nat x) = heap ?s1 (p + of_nat x)"
    by blast
  have c8: "c + 8 \<le> 2 ^ 64" using Suc.prems(1,2) by simp
  have r0: "rd64 h (p + of_nat c) = p + of_nat (c + w)"
  proof -
    have "rd64 h (p + of_nat c) = rd64 (heap ?s1) (p + of_nat c)"
    proof (rule rd64_frame[OF c8])
      fix x assume "c \<le> x" "x < c + 8"
      then have "x < 2 ^ 64" "x < c + w" using c8 Suc.prems(1) by auto
      then show "h (p + of_nat x) = heap ?s1 (p + of_nat x)" using h3 by blast
    qed
    then show ?thesis by (simp add: rd64_wr64_same)
  qed
  show ?case
  proof (rule exI[of _ h], intro conjI allI impI)
    show "link_blocks (Suc k) (p + of_nat c) (of_nat w) s = Some (p + of_nat (c + w * Suc k), s\<lparr>heap := h\<rparr>)"
      using st h1 by (simp add: algebra_simps)
  next
    fix i assume "i < Suc k"
    show "rd64 h (p + of_nat (c + w * i)) = p + of_nat (c + w * (i + 1))"
    proof (cases i)
      case 0 then show ?thesis using r0 by simp
    next
      case (Suc i')
      then have "i' < k" using \<open>i < Suc k\<close> by simp
      then show ?thesis using h2[rule_format, of i'] Suc by (simp add: algebra_simps)
    qed
  next
    fix x :: nat assume x: "x < 2 ^ 64" "x < c \<or> c + w * Suc k \<le> x"
    then have "x < c + w \<or> c + w + w * k \<le> x" by (auto simp add: algebra_simps)
    then have "h (p + of_nat x) = heap ?s1 (p + of_nat x)" using h3 x(1) by blast
    moreover have "x < c \<or> c + 8 \<le> x" using x(2) Suc.prems(1) by auto
    then have "wr64 (heap s) (p + of_nat c) (p + of_nat c + of_nat w) (p + of_nat x) = heap s (p + of_nat x)"
      using wr64_frame[OF x(1) c8] by blast
    ultimately show "h (p + of_nat x) = heap s (p + of_nat x)" by simp
  qed
qed

lemma ucast_as_of_nat: "(ucast (x :: 'a::len word) :: 'b::len word) = of_nat (unat x)"
  by (simp add: of_nat_unat)

lemma unat16_of_nat: "N < 65536 \<Longrightarrow> unat (of_nat N :: 16 word) = N"
  by (simp add: unat_of_nat)

lemma unat32_of_nat: "N < 4294967296 \<Longrightarrow> unat (of_nat N :: 32 word) = N"
  by (simp add: unat_of_nat)

lemma unat64_of_nat: "N < 2 ^ 64 \<Longrightarrow> unat (of_nat N :: 64 word) = N"
  by (simp add: unat_of_nat)

lemma stride_conv:
  assumes "unat (sz :: 64 word) < 2048"
  shows "8 * (ucast (ucast (sz div 8) :: 8 word) :: 64 word) = of_nat (8 * (unat sz div 8))"
proof -
  have "unat (ucast (sz div 8) :: 8 word) = unat sz div 8"
    using assms by (simp add: ucast_as_of_nat unat_of_nat unat_div)
  then show ?thesis by (simp add: ucast_as_of_nat[of "ucast (sz div 8) :: 8 word"])
qed

lemma region_len_conv:
  assumes "unat (sz :: 64 word) < 2048" "N < 65536"
  shows "region_len sz (of_nat N) = of_nat (unat sz * N + 8 + N div 8 + 1)"
proof -
  have "(ucast (of_nat N :: 16 word) :: 64 word) = of_nat N"
    using assms by (simp add: ucast_as_of_nat unat16_of_nat)
  moreover have "(ucast ((of_nat N :: 16 word) div 8) :: 64 word) = of_nat (N div 8)"
    using assms by (simp add: ucast_as_of_nat unat_div unat16_of_nat)
  moreover have "sz = of_nat (unat sz)" by simp
  ultimately show ?thesis
    by (simp add: region_len_def)
qed

lemma InitializePool_spec:
  fixes p sz :: "64 word" and N :: nat
  assumes sz: "8 \<le> unat sz" "unat sz < 2048" and N: "1 \<le> N" "N \<le> 65535"
  defines "w \<equiv> 8 * (unat sz div 8)"
  shows "\<exists>h. InitializePool p sz (of_nat N) s =
           Some (s\<lparr>mPool := (mPool s)(sz \<mapsto> p),
                   owned := (\<lambda>a. owned s a \<or> a - p < region_len sz (of_nat N)),
                   heap := h\<rparr>)
     \<and> rd64 h (p + of_nat (w * N)) = p
     \<and> (\<forall>i<N. rd64 h (p + of_nat (w * i)) = (if i + 1 < N then p + of_nat (w * (i + 1)) else 0))
     \<and> (\<forall>x<2 ^ 64. w * N + 8 \<le> x \<longrightarrow> h (p + of_nat x) = heap s (p + of_nat x))"
proof -
  let ?L = "unat sz * N + 8 + N div 8 + 1"
  let ?s1 = "s\<lparr>mPool := (mPool s)(sz \<mapsto> p),
                 owned := (\<lambda>a. owned s a \<or> a - p < region_len sz (of_nat N))\<rparr>"
  have w8: "8 \<le> w" using sz by (simp add: w_def)
  have wsz: "w \<le> unat sz" by (simp add: w_def)
  have wN: "w * N \<le> unat sz * N" using wsz by simp
  have "unat sz * N \<le> 2048 * 65535" using sz N by (intro mult_mono) auto
  then have Lb: "?L < 9223372036854775808" using N by simp
  have p64: "(2::nat) ^ 64 = 18446744073709551616" by simp
  have own1: "owned ?s1 (p + of_nat x)" if "x < ?L" for x
  proof -
    have rl: "region_len sz (of_nat N) = of_nat ?L"
      using sz N by (intro region_len_conv) auto
    have "unat (of_nat x :: 64 word) = x" using that Lb by (intro unat64_of_nat) simp
    moreover have "unat (of_nat ?L :: 64 word) = ?L" using Lb by (intro unat64_of_nat) simp
    ultimately have "(of_nat x :: 64 word) < of_nat ?L"
      using that by (simp only: word_less_nat_alt)
    then have "p + of_nat x - p < region_len sz (of_nat N)"
      by (simp only: rl add_diff_cancel_left')
    then show ?thesis by simp
  qed
  have st: "8 * (ucast (ucast (sz div 8) :: 8 word) :: 64 word) = of_nat w"
    unfolding w_def using sz(2) by (rule stride_conv)
  have un: "unat (of_nat N :: 16 word) - 1 = N - 1" using N by (simp add: unat16_of_nat)
  have b1: "0 + w * (N - 1) + 8 \<le> (2::nat) ^ 64"
  proof -
    have "w * (N - 1) \<le> w * N" by simp
    then have "w * (N - 1) \<le> unat sz * N" using wN by (rule order_trans)
    then show ?thesis using Lb unfolding p64 by arith
  qed
  have wN8: "w * (N - 1) + w = w * N" using N by (cases N) (simp_all add: algebra_simps)
  have o1: "\<forall>x < 0 + w * (N - 1). owned ?s1 (p + of_nat x)"
  proof (intro allI impI)
    fix x assume "x < 0 + w * (N - 1)"
    then have "x < ?L" using wN8 wN by arith
    then show "owned ?s1 (p + of_nat x)" by (rule own1)
  qed
  from link_blocks_spec[OF w8 b1 o1]
  obtain h0 where l1: "link_blocks (N - 1) p (of_nat w) ?s1 = Some (p + of_nat (w * (N - 1)), ?s1\<lparr>heap := h0\<rparr>)"
    and l2: "\<forall>i<N - 1. rd64 h0 (p + of_nat (w * i)) = p + of_nat (w * (i + 1))"
    and l3: "\<forall>x<2 ^ 64. w * (N - 1) \<le> x \<longrightarrow> h0 (p + of_nat x) = heap s (p + of_nat x)"
    by auto
  let ?c = "w * (N - 1)"
  let ?s2 = "?s1\<lparr>heap := h0\<rparr>"
  let ?h1 = "wr64 h0 (p + of_nat ?c) 0"
  let ?s3 = "?s1\<lparr>heap := ?h1\<rparr>"
  let ?h2 = "wr64 ?h1 (p + of_nat (w * N)) p"
  have own2: "\<forall>k<8. owned ?s2 (p + of_nat ?c + of_nat k)"
  proof (intro allI impI)
    fix k :: nat assume "k < 8"
    then have "?c + k < ?L" using wN8 wN w8 by arith
    then show "owned ?s2 (p + of_nat ?c + of_nat k)" using own1[of "?c + k"] by (simp add: add.assoc)
  qed
  have s3: "store64 ?s2 (p + of_nat ?c) 0 = Some ?s3"
    using store64_owned[OF own2, of 0] by simp
  have own3: "\<forall>k<8. owned ?s3 (p + of_nat (w * N) + of_nat k)"
  proof (intro allI impI)
    fix k :: nat assume "k < 8"
    then have "w * N + k < ?L" using wN by arith
    then show "owned ?s3 (p + of_nat (w * N) + of_nat k)" using own1[of "w * N + k"] by (simp add: add.assoc)
  qed
  have s4: "store64 ?s3 (p + of_nat (w * N)) p = Some (?s1\<lparr>heap := ?h2\<rparr>)"
    using store64_owned[OF own3, of p] by simp
  have cur: "p + of_nat ?c + of_nat w = p + of_nat (w * N)"
    using wN8 by (metis off_add)
  have init: "InitializePool p sz (of_nat N) s = Some (?s1\<lparr>heap := ?h2\<rparr>)"
    unfolding InitializePool_def Let_def st un
    by (simp only: l1 option.case prod.case s3 cur s4)
  have cb: "?c + 8 \<le> 2 ^ 64" using b1 by simp
  have nb: "w * N + 8 \<le> 2 ^ 64" using wN Lb unfolding p64 by arith
  have nb': "w * N < 2 ^ 64" using nb by simp
  have head: "rd64 ?h2 (p + of_nat (w * N)) = p" by (rule rd64_wr64_same)
  have last: "rd64 ?h2 (p + of_nat ?c) = 0"
  proof -
    have "rd64 ?h2 (p + of_nat ?c) = rd64 ?h1 (p + of_nat ?c)"
    proof (rule rd64_frame[OF cb])
      fix x assume "?c \<le> x" "x < ?c + 8"
      then have "x < 2 ^ 64" "x < w * N \<or> w * N + 8 \<le> x" using cb wN8 w8 by auto
      then show "?h2 (p + of_nat x) = ?h1 (p + of_nat x)" using wr64_frame[OF _ nb] by blast
    qed
    then show ?thesis by (simp add: rd64_wr64_same)
  qed
  have links: "rd64 ?h2 (p + of_nat (w * i)) = p + of_nat (w * (i + 1))" if "i < N - 1" for i
  proof -
    have i8: "w * i + 8 \<le> ?c" 
    proof -
      have "w * i + w = w * (i + 1)" by simp
      moreover have "w * (i + 1) \<le> w * (N - 1)" using that by (intro mult_le_mono2) simp
      ultimately show ?thesis using w8 by arith
    qed
    have ib: "w * i + 8 \<le> 2 ^ 64" using i8 cb by simp
    have "rd64 ?h2 (p + of_nat (w * i)) = rd64 h0 (p + of_nat (w * i))"
    proof (rule rd64_frame[OF ib])
      fix x assume x: "w * i \<le> x" "x < w * i + 8"
      then have xb: "x < 2 ^ 64" using ib by simp
      have "x < w * N \<or> w * N + 8 \<le> x" using x i8 wN8 by arith
      then have "?h2 (p + of_nat x) = ?h1 (p + of_nat x)" using wr64_frame[OF xb nb] by blast
      moreover have "x < ?c \<or> ?c + 8 \<le> x" using x i8 by arith
      then have "?h1 (p + of_nat x) = h0 (p + of_nat x)" using wr64_frame[OF xb cb] by blast
      ultimately show "?h2 (p + of_nat x) = h0 (p + of_nat x)" by simp
    qed
    then show ?thesis using l2 that by simp
  qed
  have frame: "?h2 (p + of_nat x) = heap s (p + of_nat x)" if "x < 2 ^ 64" "w * N + 8 \<le> x" for x
  proof -
    have "?h2 (p + of_nat x) = ?h1 (p + of_nat x)" using wr64_frame[OF that(1) nb] that(2) by simp
    moreover have "?c + 8 \<le> x" using that(2) wN8 by arith
    then have "?h1 (p + of_nat x) = h0 (p + of_nat x)" using wr64_frame[OF that(1) cb] by simp
    moreover have "h0 (p + of_nat x) = heap s (p + of_nat x)" using l3 that wN8 by simp
    ultimately show ?thesis by simp
  qed
  show ?thesis
  proof (rule exI[of _ ?h2], intro conjI allI impI)
    show "InitializePool p sz (of_nat N) s = Some (?s1\<lparr>heap := ?h2\<rparr>)" by (rule init)
    show "rd64 ?h2 (p + of_nat (w * N)) = p" by (rule head)
  next
    fix i assume "i < N"
    show "rd64 ?h2 (p + of_nat (w * i)) = (if i + 1 < N then p + of_nat (w * (i + 1)) else 0)"
    proof (cases "i + 1 < N")
      case True then show ?thesis using links[of i] by simp
    next
      case False
      then have "i = N - 1" using \<open>i < N\<close> by simp
      then show ?thesis using last False by simp
    qed
  next
    fix x :: nat assume "x < 2 ^ 64" "w * N + 8 \<le> x"
    then show "?h2 (p + of_nat x) = heap s (p + of_nat x)" by (rule frame)
  qed
qed

lemma div8_conv: "(sz :: 64 word) div 8 = of_nat (unat sz div 8)"
proof -
  have "unat sz div 8 < 2 ^ 64" using unsigned_less[of sz, where 'a=nat] by simp
  then have "unat (of_nat (unat sz div 8) :: 64 word) = unat (sz div 8)"
    by (simp only: unat64_of_nat unat_div) simp
  then show ?thesis by (simp only: unat_arith_simps(3))
qed

lemma last_conv:
  "8 * ((sz div 8) * ucast (n :: 32 word)) = (of_nat (8 * (unat sz div 8) * unat n) :: 64 word)"
  by (simp only: div8_conv[of sz] ucast_as_of_nat[of n] of_nat_mult of_nat_numeral mult.assoc)

lemma idx_conv:
  fixes sz :: "64 word"
  assumes "x < 2 ^ 64" "x div unat sz < 2 ^ 32"
  shows "(ucast ((ucast ((of_nat x :: 64 word) div sz) :: 32 word) div 8) :: 64 word)
           = of_nat (x div unat sz div 8)"
proof -
  have "unat ((of_nat x :: 64 word) div sz) = x div unat sz"
    using assms(1) by (simp add: unat_div unat_of_nat)
  then have "unat (ucast ((of_nat x :: 64 word) div sz) :: 32 word) = x div unat sz"
    using assms(2) by (simp add: ucast_as_of_nat unat_of_nat)
  then have "unat ((ucast ((of_nat x :: 64 word) div sz) :: 32 word) div 8) = x div unat sz div 8"
    by (simp add: unat_div)
  then show ?thesis by (simp only: ucast_as_of_nat)
qed

lemma upd_frame:
  fixes p :: "64 word"
  assumes "x < 2 ^ 64" "d < 2 ^ 64" "x \<noteq> d"
  shows "(m(p + of_nat d := v)) (p + of_nat x) = m (p + of_nat x)"
  using assms off_eq[of x d p] by simp

lemma mPool_index_present: "mPool s key = Some v \<Longrightarrow> mPool_index key s = (v, s)"
  by (simp add: mPool_index_def)

lemma Allocate_step:
  fixes p sz :: "64 word" and N k :: nat
  defines "w \<equiv> 8 * (unat sz div 8)"
  assumes sz: "8 \<le> unat sz" "unat sz < 2048" and N: "N \<le> 65535" "k < N"
    and p: "0 < unat p" "unat p + (w * N + 8 + N div 8 + 1) \<le> 2 ^ 64"
    and reg: "mPool s sz = Some p" "mNumBlocksPerPool s = of_nat N"
    and inv: "pool_state p w N k s"
  shows "\<exists>h. Allocate q sz s = Some (Inr (p + of_nat (w * k)), s\<lparr>heap := h\<rparr>)
            \<and> pool_state p w N (k + 1) (s\<lparr>heap := h\<rparr>)"
proof -
  let ?L = "w * N + 8 + N div 8 + 1"
  have p64: "(2::nat) ^ 64 = 18446744073709551616" by simp
  have w8: "8 \<le> w" using sz by (simp add: w_def)
  have wsz: "w \<le> unat sz" by (simp add: w_def)
  have Lb: "?L \<le> 2 ^ 64" using p by arith
  have own: "owned s (p + of_nat x)" if "x < ?L" for x
    using inv that by (simp add: pool_state_def)
  have headv: "rd64 (heap s) (p + of_nat (w * N)) = p + of_nat (w * k)"
    using inv N by (simp add: pool_state_def)
  have linkv: "rd64 (heap s) (p + of_nat (w * i)) = (if i + 1 < N then p + of_nat (w * (i + 1)) else 0)"
    if "i < N" for i using inv that by (simp add: pool_state_def)
  have p0: "p \<noteq> 0" using p(1) by auto
  have idx1: "mPool_index sz s = (p, s)" using reg(1) by (rule mPool_index_present)
  have unN: "unat (of_nat N :: 32 word) = N" using N by (intro unat32_of_nat) simp
  have lastc: "p + 8 * ((sz div 8) * ucast (mNumBlocksPerPool s)) = p + of_nat (w * N)"
    unfolding reg(2) last_conv unN w_def ..
  have wk: "w * k + w \<le> w * N"
  proof -
    have "w * (k + 1) \<le> w * N" using N(2) by (intro mult_le_mono2) simp
    then show ?thesis by simp
  qed
  have ownlast: "\<forall>j<8. owned s (p + of_nat (w * N) + of_nat j)"
  proof (intro allI impI)
    fix j :: nat assume "j < 8"
    then have "w * N + j < ?L" by arith
    then show "owned s (p + of_nat (w * N) + of_nat j)"
      using own[of "w * N + j"] by (simp only: off_add)
  qed
  have ld1: "load64 s (p + of_nat (w * N)) = Some (p + of_nat (w * k))"
    using load64_owned[OF ownlast] headv by simp
  have hn0: "p + of_nat (w * k) \<noteq> 0"
  proof -
    have "unat p + w * k < 2 ^ 64" using p(2) wk unfolding p64 by arith
    then have "unat (p + of_nat (w * k)) = unat p + w * k" by (rule unat_off)
    then show ?thesis using p(1) by auto
  qed
  let ?i0 = "w * k div unat sz"
  have i0k: "?i0 \<le> k"
  proof -
    have "w * k \<le> unat sz * k" using wsz by simp
    then have "w * k div unat sz \<le> unat sz * k div unat sz" by (rule div_le_mono)
    then show ?thesis using sz(1) by simp
  qed
  have wkb: "w * k < 2 ^ 64" using wk Lb unfolding p64 by arith
  have i0b: "?i0 < 2 ^ 32" using i0k N by simp
  have diffc: "p + of_nat (w * k) - p = (of_nat (w * k) :: 64 word)" by simp
  have idxc: "(ucast ((ucast ((p + of_nat (w * k) - p) div sz) :: 32 word) div 8) :: 64 word)
                 = of_nat (?i0 div 8)"
    unfolding diffc using wkb i0b by (rule idx_conv)
  let ?D = "w * N + 8 + ?i0 div 8"
  have Dlt: "?D < ?L"
  proof -
    have "?i0 div 8 \<le> N div 8" using i0k N(2) by (intro div_le_mono) simp
    then show ?thesis by arith
  qed
  have Db: "?D < 2 ^ 64" using Dlt Lb by simp
  have desc: "p + of_nat (w * N) + 8 + of_nat (?i0 div 8) = p + of_nat ?D"
    by simp
  let ?b = "heap s (p + of_nat ?D)"
  let ?m = "bit_mask (ucast ((p + of_nat (w * k) - p) div sz))"
  let ?h1 = "(heap s)(p + of_nat ?D := ?b OR ?m)"
  let ?s2 = "s\<lparr>heap := ?h1\<rparr>"
  have l8: "load8 s (p + of_nat ?D) = Some ?b" using own[OF Dlt] by (simp add: load8_def)
  have s8: "store8 s (p + of_nat ?D) (?b OR ?m) = Some ?s2"
    using own[OF Dlt] by (simp add: store8_def)
  have h1frame: "rd64 ?h1 (p + of_nat y) = rd64 (heap s) (p + of_nat y)" if "y + 8 \<le> w * N" for y
  proof (rule rd64_frame)
    show "y + 8 \<le> 2 ^ 64" using that Lb unfolding p64 by arith
  next
    fix x assume "y \<le> x" "x < y + 8"
    then have "x < 2 ^ 64" "x \<noteq> ?D" using that Lb unfolding p64 by arith+
    then show "?h1 (p + of_nat x) = heap s (p + of_nat x)" using Db by (intro upd_frame)
  qed
  have ownhead: "\<forall>j<8. owned ?s2 (p + of_nat (w * k) + of_nat j)"
  proof (intro allI impI)
    fix j :: nat assume "j < 8"
    then have "w * k + j < ?L" using wk w8 by arith
    then show "owned ?s2 (p + of_nat (w * k) + of_nat j)"
      using own[of "w * k + j"] by (simp only: off_add) simp
  qed
  let ?nx = "if k + 1 < N then p + of_nat (w * (k + 1)) else 0"
  have ld2: "load64 ?s2 (p + of_nat (w * k)) = Some ?nx"
  proof -
    have "w * k + 8 \<le> w * N" using wk w8 by arith
    then have "rd64 ?h1 (p + of_nat (w * k)) = rd64 (heap s) (p + of_nat (w * k))" by (rule h1frame)
    then show ?thesis using load64_owned[OF ownhead] linkv[OF N(2)] by simp
  qed
  let ?h2 = "wr64 ?h1 (p + of_nat (w * N)) ?nx"
  have ownlast2: "\<forall>j<8. owned ?s2 (p + of_nat (w * N) + of_nat j)" using ownlast by simp
  have s64: "store64 ?s2 (p + of_nat (w * N)) ?nx = Some (s\<lparr>heap := ?h2\<rparr>)"
    using store64_owned[OF ownlast2, of ?nx] by simp
  have alloc: "Allocate q sz s = Some (Inr (p + of_nat (w * k)), s\<lparr>heap := ?h2\<rparr>)"
    unfolding Allocate_def
    by (simp only: idx1 prod.case p0 if_False option.case Let_def fst_conv lastc ld1 hn0 idxc desc l8 s8 ld2 s64)
  have nb: "w * N + 8 \<le> 2 ^ 64" using Lb unfolding p64 by arith
  have st: "pool_state p w N (k + 1) (s\<lparr>heap := ?h2\<rparr>)"
    unfolding pool_state_def
  proof (intro conjI allI impI)
    fix x assume "x < ?L"
    then show "owned (s\<lparr>heap := ?h2\<rparr>) (p + of_nat x)" using own by simp
  next
    show "rd64 (heap (s\<lparr>heap := ?h2\<rparr>)) (p + of_nat (w * N)) = (if k + 1 < N then p + of_nat (w * (k + 1)) else 0)"
      by (simp add: rd64_wr64_same)
  next
    fix i assume i: "i < N"
    have i8: "w * i + 8 \<le> w * N"
    proof -
      have "w * (i + 1) \<le> w * N" using i by (intro mult_le_mono2) simp
      then show ?thesis using w8 by simp
    qed
    have "rd64 ?h2 (p + of_nat (w * i)) = rd64 ?h1 (p + of_nat (w * i))"
    proof (rule rd64_frame)
      show "w * i + 8 \<le> 2 ^ 64" using i8 nb by simp
    next
      fix x assume "w * i \<le> x" "x < w * i + 8"
      then have "x < 2 ^ 64" "x < w * N \<or> w * N + 8 \<le> x" using i8 nb unfolding p64 by arith+
      then show "?h2 (p + of_nat x) = ?h1 (p + of_nat x)" using wr64_frame[OF _ nb] by blast
    qed
    also have "\<dots> = rd64 (heap s) (p + of_nat (w * i))" using i8 by (rule h1frame)
    finally show "rd64 (heap (s\<lparr>heap := ?h2\<rparr>)) (p + of_nat (w * i))
        = (if i + 1 < N then p + of_nat (w * (i + 1)) else 0)"
      using linkv[OF i] by simp
  qed
  show ?thesis using alloc st by blast
qed

lemma Allocate_exhausted:
  fixes p sz :: "64 word" and N :: nat
  defines "w \<equiv> 8 * (unat sz div 8)"
  assumes N: "N \<le> 65535" and p: "p \<noteq> 0"
    and reg: "mPool s sz = Some p" "mNumBlocksPerPool s = of_nat N"
    and inv: "pool_state p w N N s"
  shows "Allocate q sz s = Some (Inl PoolExhausted, s)"
proof -
  have own: "owned s (p + of_nat x)" if "x < w * N + 8 + N div 8 + 1" for x
    using inv that by (simp add: pool_state_def)
  have headv: "rd64 (heap s) (p + of_nat (w * N)) = 0"
    using inv by (simp add: pool_state_def)
  have idx1: "mPool_index sz s = (p, s)" using reg(1) by (rule mPool_index_present)
  have unN: "unat (of_nat N :: 32 word) = N" using N by (intro unat32_of_nat) simp
  have lastc: "p + 8 * ((sz div 8) * ucast (mNumBlocksPerPool s)) = p + of_nat (w * N)"
    unfolding reg(2) last_conv unN w_def ..
  have ownlast: "\<forall>j<8. owned s (p + of_nat (w * N) + of_nat j)"
  proof (intro allI impI)
    fix j :: nat assume "j < 8"
    then have "w * N + j < w * N + 8 + N div 8 + 1" by arith
    then show "owned s (p + of_nat (w * N) + of_nat j)"
      using own[of "w * N + j"] by (simp only: off_add)
  qed
  have ld1: "load64 s (p + of_nat (w * N)) = Some 0"
    using load64_owned[OF ownlast] headv by simp
  show ?thesis
    unfolding Allocate_def
    by (simp only: idx1 prod.case p if_False option.case Let_def fst_conv lastc ld1 if_True refl)
qed

lemma Allocate_n_spec:
  fixes p sz :: "64 word" and N k j :: nat
  defines "w \<equiv> 8 * (unat sz div 8)"
  assumes sz: "8 \<le> unat sz" "unat sz < 2048" and N: "N \<le> 65535" "k + j \<le> N"
    and p: "0 < unat p" "unat p + (w * N + 8 + N div 8 + 1) \<le> 2 ^ 64"
    and reg: "mPool s sz = Some p" "mNumBlocksPerPool s = of_nat N"
    and inv: "pool_state p w N k s"
  shows "\<exists>h. Allocate_n j q sz s =
              Some (map (\<lambda>i. Inr (p + of_nat (w * i))) [k..<k + j], s\<lparr>heap := h\<rparr>)
            \<and> pool_state p w N (k + j) (s\<lparr>heap := h\<rparr>)"
  using N(2) reg inv
proof (induction j arbitrary: k s)
  case 0
  show ?case using "0.prems"(4) by (intro exI[of _ "heap s"]) simp
next
  case (Suc j)
  have kN: "k < N" using Suc.prems(1) by simp
  from Allocate_step[OF sz N(1) kN p[unfolded w_def] Suc.prems(2,3) Suc.prems(4)[unfolded w_def], of q]
  obtain h where a: "Allocate q sz s = Some (Inr (p + of_nat (w * k)), s\<lparr>heap := h\<rparr>)"
    and i: "pool_state p w N (k + 1) (s\<lparr>heap := h\<rparr>)"
    unfolding w_def by blast
  have "k + 1 + j \<le> N" using Suc.prems(1) by simp
  moreover have "mPool (s\<lparr>heap := h\<rparr>) sz = Some p" using Suc.prems(2) by simp
  moreover have "mNumBlocksPerPool (s\<lparr>heap := h\<rparr>) = of_nat N" using Suc.prems(3) by simp
  ultimately obtain h' where
    b: "Allocate_n j q sz (s\<lparr>heap := h\<rparr>) =
          Some (map (\<lambda>i. Inr (p + of_nat (w * i))) [k + 1..<k + 1 + j], s\<lparr>heap := h, heap := h'\<rparr>)"
    and i': "pool_state p w N (k + 1 + j) (s\<lparr>heap := h, heap := h'\<rparr>)"
    using Suc.IH[of "k + 1" "s\<lparr>heap := h\<rparr>"] i by blast
  have l: "[k..<k + Suc j] = k # [k + 1..<k + 1 + j]" by (simp add: upt_rec)
  show ?case
  proof (rule exI[of _ h'], rule conjI)
    show "Allocate_n (Suc j) q sz s =
       Some (map (\<lambda>i. Inr (p + of_nat (w * i))) [k..<k + Suc j], s\<lparr>heap := h'\<rparr>)"
      unfolding l using a b by simp
    show "pool_state p w N (k + Suc j) (s\<lparr>heap := h'\<rparr>)" using i' by simp
  qed
qed

lemma block_addresses_distinct:
  fixes p :: "64 word"
  assumes "0 < w" "w * N \<le> 2 ^ 64"
  shows "distinct (map (\<lambda>i. p + of_nat (w * i)) [0..<N])"
proof -
  have "inj_on (\<lambda>i. p + of_nat (w * i)) (set [0..<N])"
  proof (rule inj_onI)
    fix i j assume ij: "i \<in> set [0..<N]" "j \<in> set [0..<N]"
      and e: "p + of_nat (w * i) = p + of_nat (w * j)"
    have "w * i < w * N" using ij assms(1) by simp
    then have i64: "w * i < 2 ^ 64" using assms(2) by (rule less_le_trans)
    have "w * j < w * N" using ij assms(1) by simp
    then have "w * j < 2 ^ 64" using assms(2) by (rule less_le_trans)
    note i64 this
    then have "w * i = w * j" using e off_eq by blast
    then show "i = j" using assms(1) by simp
  qed
  then show ?thesis by (simp add: distinct_map)
qed

lemma Allocate_failure_unchanged:
  assumes "mPool t sz = Some b" "b \<noteq> 0" "Allocate q sz t = Some (Inl e, t')"
  shows "t' = t"
  using assms
  by (auto simp add: Allocate_def mPool_index_def Let_def split: option.splits if_splits)

lemma InitializePool_pool_state:
  fixes p sz :: "64 word" and N :: nat
  assumes sz: "8 \<le> unat sz" "unat sz < 2048" and N: "1 \<le> N" "N \<le> 65535"
    and i: "InitializePool p sz (of_nat N) s = Some s1"
  shows "pool_state p (8 * (unat sz div 8)) N 0 s1 \<and> mPool s1 = (mPool s)(sz \<mapsto> p)
     \<and> mNumBlocksPerPool s1 = mNumBlocksPerPool s"
proof -
  let ?w = "8 * (unat sz div 8)"
  let ?L = "unat sz * N + 8 + N div 8 + 1"
  from InitializePool_spec[OF sz N, of p s] i
  obtain h where s1: "s1 = s\<lparr>mPool := (mPool s)(sz \<mapsto> p),
                   owned := (\<lambda>a. owned s a \<or> a - p < region_len sz (of_nat N)),
                   heap := h\<rparr>"
    and hd: "rd64 h (p + of_nat (?w * N)) = p"
    and lk: "\<forall>i<N. rd64 h (p + of_nat (?w * i)) = (if i + 1 < N then p + of_nat (?w * (i + 1)) else 0)"
    by auto
  have "unat sz * N \<le> 2048 * 65535" using sz N by (intro mult_mono) auto
  then have Lb: "?L < 9223372036854775808" using N by simp
  have rl: "region_len sz (of_nat N) = of_nat ?L"
    using sz N by (intro region_len_conv) auto
  have own: "owned s1 (p + of_nat x)" if "x < ?w * N + 8 + N div 8 + 1" for x
  proof -
    have "?w * N \<le> unat sz * N" by (intro mult_le_mono1) simp
    then have xl: "x < ?L" using that by arith
    have "unat (of_nat x :: 64 word) = x" using xl Lb by (intro unat64_of_nat) simp
    moreover have "unat (of_nat ?L :: 64 word) = ?L" using Lb by (intro unat64_of_nat) simp
    ultimately have "(of_nat x :: 64 word) < of_nat ?L"
      using xl by (simp only: word_less_nat_alt)
    then have "p + of_nat x - p < region_len sz (of_nat N)"
      by (simp only: rl add_diff_cancel_left')
    then show ?thesis by (simp add: s1)
  qed
  have "pool_state p ?w N 0 s1"
    unfolding pool_state_def
  proof (intro conjI allI impI)
    fix x assume "x < ?w * N + 8 + N div 8 + 1"
    then show "owned s1 (p + of_nat x)" by (rule own)
  next
    show "rd64 (heap s1) (p + of_nat (?w * N)) = (if 0 < N then p + of_nat (?w * 0) else 0)"
      using hd N by (simp add: s1)
  next
    fix i assume "i < N"
    then show "rd64 (heap s1) (p + of_nat (?w * i)) = (if i + 1 < N then p + of_nat (?w * (i + 1)) else 0)"
      using lk by (simp add: s1)
  qed
  then show ?thesis by (simp add: s1)
qed

lemma InitializePool_succeeds:
  fixes p sz :: "64 word" and N :: nat
  assumes sz: "8 \<le> unat sz" "unat sz < 2048" and N: "1 \<le> N" "N \<le> 65535"
  shows "\<exists>s1. InitializePool p sz (of_nat N) s = Some s1"
  using InitializePool_spec[OF assms, of p s] by blast

lemma ucast_32_16: "N < 65536 \<Longrightarrow> (ucast (of_nat N :: 32 word) :: 16 word) = of_nat N"
  by (simp add: ucast_as_of_nat unat_of_nat)

lemma of_nat_unat32: "(of_nat (unat n) :: 32 word) = n"
  by simp

lemma owned64_heap_update [simp]: "owned64 (s\<lparr>heap := h\<rparr>) a = owned64 s a"
  by (simp add: owned64_def)


lemma Allocate_unfold:
  assumes "mPool s sz = Some base" "base \<noteq> 0"
  defines "l \<equiv> lastElementPtr s base sz"
  shows "Allocate q sz s =
     (if \<not> owned64 s l then None
      else if rd64 (heap s) l = 0 then Some (Inl PoolExhausted, s)
      else if \<not> owned s (desiredByte s base sz (rd64 (heap s) l)) \<or> \<not> owned64 s (rd64 (heap s) l) then None
      else Some (Inr (rd64 (heap s) l),
             s\<lparr>heap := wr64 ((heap s)(desiredByte s base sz (rd64 (heap s) l) :=
                      heap s (desiredByte s base sz (rd64 (heap s) l)) OR
                      bit_mask (indexBlockAllocated base sz (rd64 (heap s) l)))) l
                   (rd64 ((heap s)(desiredByte s base sz (rd64 (heap s) l) :=
                      heap s (desiredByte s base sz (rd64 (heap s) l)) OR
                      bit_mask (indexBlockAllocated base sz (rd64 (heap s) l)))) (rd64 (heap s) l))\<rparr>))"
proof -
  have idx: "mPool_index sz s = (base, s)" using assms(1) by (rule mPool_index_present)
  show ?thesis
    unfolding Allocate_def l_def desiredByte_def lastElementPtr_def indexBlockAllocated_def
    apply (simp only: idx prod.case assms(2) if_False Let_def option.case fst_conv)
    apply (simp add: load8_def store8_def load64_def store64_def)
    done
qed

lemma lastElementPtr_heap_update [simp]:
  "lastElementPtr (s\<lparr>heap := h\<rparr>) base sz = lastElementPtr s base sz"
  by (simp add: lastElementPtr_def)

lemma desiredByte_heap_update [simp]:
  "desiredByte (s\<lparr>heap := h\<rparr>) base sz a = desiredByte s base sz a"
  by (simp add: desiredByte_def)



lemma bit_mask_bit: "bit (bit_mask i) n = (n = 7 - unat (i mod 8))"
proof -
  have "unat (i mod 8) < 8" by (simp add: unat_mod)
  then have "8 - unat (i mod 8) - 1 = 7 - unat (i mod 8)" "7 - unat (i mod 8) < 8" by arith+
  then show ?thesis
    by (auto simp add: bit_mask_def bit_simps)
qed


lemma bit_mask_set: "(b OR bit_mask i) AND bit_mask i \<noteq> 0"
proof
  assume "(b OR bit_mask i) AND bit_mask i = 0"
  then have "\<not> bit ((b OR bit_mask i) AND bit_mask i) (7 - unat (i mod 8))" by simp
  then show False by (simp add: bit_simps bit_mask_bit)
qed

lemma unat_ucast_32_64: "unat (ucast (x :: 32 word) :: 64 word) = unat x"
  by transfer simp

lemma desiredByte_after_slot:
  "\<not> (desiredByte s base sz a - lastElementPtr s base sz < 8)"
proof -
  let ?j = "indexBlockAllocated base sz a div 8"
  have jb: "unat ?j < 2 ^ 32" using unsigned_less[of ?j, where 'a=nat] by simp
  have u: "unat (ucast ?j :: 64 word) = unat ?j"
    by (rule unat_ucast_32_64)
  have "desiredByte s base sz a - lastElementPtr s base sz = 8 + ucast ?j"
    by (simp add: desiredByte_def)
  moreover have "unat (8 + ucast ?j :: 64 word) = 8 + unat ?j"
    using u jb by (simp add: unat_word_ariths)
  ultimately show ?thesis by (simp add: word_less_nat_alt)
qed


lemma allocation_bit_heap:
  "allocation_bit (s\<lparr>heap := h\<rparr>) sz a =
     (case mPool s sz of None \<Rightarrow> None
      | Some base \<Rightarrow> if owned s (desiredByte s base sz a)
          then Some (h (desiredByte s base sz a) AND bit_mask (indexBlockAllocated base sz a) \<noteq> 0)
          else None)"
  by (simp add: allocation_bit_def load8_def split: option.splits)

lemma region_apart:
  fixes p q :: "64 word"
  assumes "unat p + l \<le> 2 ^ 64" "unat q + m \<le> 2 ^ 64" "arrays_apart p l q m" "y < l"
  shows "m \<le> unat (p + of_nat y - q)"
proof -
  have p64: "(2::nat) ^ 64 = 18446744073709551616" by simp
  have "unat p + y < 2 ^ 64" using assms(1,4) by arith
  then have u: "unat (p + of_nat y) = unat p + y" by (rule unat_off)
  have qb: "unat q < 2 ^ 64" using unsigned_less[of q, where 'a=nat] by simp
  show ?thesis
    using assms u qb unfolding arrays_apart_def p64
    by (simp add: unat_sub_if' split: if_splits) arith
qed

lemma InitializePool_frame:
  fixes p sz :: "64 word" and N :: nat
  assumes sz: "8 \<le> unat sz" "unat sz < 2048" and N: "1 \<le> N" "N \<le> 65535"
    and i: "InitializePool p sz (of_nat N) s = Some s1"
  shows "(\<forall>a. owned s a \<longrightarrow> owned s1 a) \<and>
         (\<forall>a. 8 * (unat sz div 8) * N + 8 \<le> unat (a - p) \<longrightarrow> heap s1 a = heap s a)"
proof -
  let ?w = "8 * (unat sz div 8)"
  from InitializePool_spec[OF sz N, of p s] i
  obtain h where s1: "s1 = s\<lparr>mPool := (mPool s)(sz \<mapsto> p),
                   owned := (\<lambda>a. owned s a \<or> a - p < region_len sz (of_nat N)),
                   heap := h\<rparr>"
    and fr: "\<forall>x<2 ^ 64. ?w * N + 8 \<le> x \<longrightarrow> h (p + of_nat x) = heap s (p + of_nat x)"
    by auto
  have "heap s1 a = heap s a" if "?w * N + 8 \<le> unat (a - p)" for a
  proof -
    have "unat (a - p) < 2 ^ 64" using unsigned_less[of "a - p", where 'a=nat] by simp
    then have "h (p + of_nat (unat (a - p))) = heap s (p + of_nat (unat (a - p)))"
      using fr that by blast
    then show ?thesis by (simp add: s1)
  qed
  then show ?thesis by (simp add: s1)
qed

lemma pool_state_frame:
  fixes p :: "64 word"
  assumes ps: "pool_state p w N k s" and w: "8 \<le> w" and fit: "w * N + 8 \<le> 2 ^ 64"
    and own: "\<forall>a. owned s a \<longrightarrow> owned s' a"
    and fr: "\<forall>x < w * N + 8. heap s' (p + of_nat x) = heap s (p + of_nat x)"
  shows "pool_state p w N k s'"
proof -
  have rd: "rd64 (heap s') (p + of_nat y) = rd64 (heap s) (p + of_nat y)" if "y + 8 \<le> w * N + 8" for y
  proof (rule rd64_frame)
    show "y + 8 \<le> 2 ^ 64" using that fit by simp
  next
    fix x assume "y \<le> x" "x < y + 8"
    then have "x < w * N + 8" using that by simp
    then show "heap s' (p + of_nat x) = heap s (p + of_nat x)" using fr by blast
  qed
  have i8: "w * i + 8 \<le> w * N + 8" if "i < N" for i
  proof -
    have "w * i \<le> w * N" using that by (intro mult_le_mono2) simp
    then show ?thesis by simp
  qed
  have hd: "rd64 (heap s') (p + of_nat (w * N)) = rd64 (heap s) (p + of_nat (w * N))"
    by (rule rd) simp
  have o: "\<forall>x < w * N + 8 + N div 8 + 1. owned s' (p + of_nat x)"
    using ps own unfolding pool_state_def by blast
  have l: "\<forall>i<N. rd64 (heap s') (p + of_nat (w * i)) =
                (if i + 1 < N then p + of_nat (w * (i + 1)) else 0)"
  proof (intro allI impI)
    fix i assume i: "i < N"
    have "rd64 (heap s') (p + of_nat (w * i)) = rd64 (heap s) (p + of_nat (w * i))"
      using i8[OF i] by (rule rd)
    moreover have "rd64 (heap s) (p + of_nat (w * i)) = (if i + 1 < N then p + of_nat (w * (i + 1)) else 0)"
      using ps i unfolding pool_state_def by blast
    ultimately show "rd64 (heap s') (p + of_nat (w * i)) =
                (if i + 1 < N then p + of_nat (w * (i + 1)) else 0)" by (rule trans)
  qed
  have h: "rd64 (heap s') (p + of_nat (w * N)) = (if k < N then p + of_nat (w * k) else 0)"
    using ps unfolding pool_state_def hd by blast
  show ?thesis
    unfolding pool_state_def using o h l by blast
qed

lemma InitializePool_other_pool:
  fixes p q sz sz' :: "64 word" and N :: nat
  assumes sz: "8 \<le> unat sz" "unat sz < 2048" and N: "1 \<le> N" "N \<le> 65535"
    and i: "InitializePool p sz (of_nat N) s = Some s1"
    and ps: "pool_state q w N k s" and w: "8 \<le> w" "w \<le> unat sz'"
    and fq: "unat q + array_len (unat sz') N \<le> 2 ^ 64"
    and fp: "unat p + array_len (unat sz) N \<le> 2 ^ 64"
    and ap: "arrays_apart q (array_len (unat sz') N) p (array_len (unat sz) N)"
  shows "pool_state q w N k s1"
proof -
  let ?v = "8 * (unat sz div 8)"
  have p64: "(2::nat) ^ 64 = 18446744073709551616" by simp
  note f = InitializePool_frame[OF sz N i]
  have wN: "w * N \<le> unat sz' * N" using w(2) by (intro mult_le_mono1)
  have vN: "?v * N \<le> unat sz * N" by (intro mult_le_mono1) simp
  have fit: "w * N + 8 \<le> 2 ^ 64" using fq wN unfolding array_len_def p64 by arith
  have fr: "\<forall>x < w * N + 8. heap s1 (q + of_nat x) = heap s (q + of_nat x)"
  proof (intro allI impI)
    fix x assume "x < w * N + 8"
    then have "x < array_len (unat sz') N" using wN unfolding array_len_def by arith
    with fq fp ap have "array_len (unat sz) N \<le> unat (q + of_nat x - p)" by (rule region_apart)
    then have "?v * N + 8 \<le> unat (q + of_nat x - p)" using vN unfolding array_len_def by arith
    then show "heap s1 (q + of_nat x) = heap s (q + of_nat x)" using f by blast
  qed
  show ?thesis using ps w(1) fit f[THEN conjunct1] fr by (rule pool_state_frame)
qed

lemma arrays_apart_sym: "arrays_apart p l q m \<Longrightarrow> arrays_apart q m p l"
  by (auto simp add: arrays_apart_def)

section \<open>Exhaustion\<close>

text \<open>
  What the code does on the pools it lays out correctly. A pool that \<open>InitializePool\<close>
  lays out for a block size from 8 to 2047 bytes and 1 to 65535 blocks (the count the
  allocator keeps in \<open>mNumBlocksPerPool\<close>), in an array that lies inside the address space,
  serves exactly that many \<open>Allocate\<close> calls: they return the pairwise distinct addresses
  \<open>p + 8 * (sz div 8) * i\<close> in order, the next call returns the null pointer of the
  exhausted pool and leaves the state as it was; and whenever \<open>Allocate\<close> fails on an
  existing pool the state is unchanged.
\<close>

theorem Allocate_serves_every_block_once:
  fixes p sz q :: "64 word"
  assumes "8 \<le> unat sz" "unat sz < 2048"
    and "1 \<le> unat (mNumBlocksPerPool s)" "unat (mNumBlocksPerPool s) \<le> 65535"
    and "0 < unat p"
    and "unat p + (unat sz * unat (mNumBlocksPerPool s) + 8 + unat (mNumBlocksPerPool s) div 8 + 1) \<le> 2 ^ 64"
  shows "\<exists>s1 s2.
      InitializePool p sz (ucast (mNumBlocksPerPool s)) s = Some s1 \<and>
      Allocate_n (unat (mNumBlocksPerPool s)) q sz s1 =
        Some (map (\<lambda>i. Inr (p + of_nat (8 * (unat sz div 8) * i))) [0..<unat (mNumBlocksPerPool s)], s2) \<and>
      distinct (map (\<lambda>i. p + of_nat (8 * (unat sz div 8) * i)) [0..<unat (mNumBlocksPerPool s)]) \<and>
      Allocate q sz s2 = Some (Inl PoolExhausted, s2) \<and>
      (\<forall>t t' b e. mPool t sz = Some b \<and> b \<noteq> 0 \<and> Allocate q sz t = Some (Inl e, t') \<longrightarrow> t' = t)"
proof -
  let ?N = "unat (mNumBlocksPerPool s)"
  let ?w = "8 * (unat sz div 8)"
  have p64: "(2::nat) ^ 64 = 18446744073709551616" by simp
  have nb: "?N < 65536" using assms(4) by simp
  have uc: "(ucast (mNumBlocksPerPool s) :: 16 word) = of_nat ?N"
    using ucast_32_16[OF nb] by simp
  obtain s1 where i: "InitializePool p sz (of_nat ?N) s = Some s1"
    using InitializePool_succeeds[OF assms(1-4)] by blast
  from InitializePool_pool_state[OF assms(1-4) i]
  have ps: "pool_state p ?w ?N 0 s1" and mp: "mPool s1 sz = Some p"
    and mn: "mNumBlocksPerPool s1 = of_nat ?N" by simp_all
  have wle: "?w * ?N \<le> unat sz * ?N" by (intro mult_le_mono1) simp
  then have fit: "unat p + (?w * ?N + 8 + ?N div 8 + 1) \<le> 2 ^ 64"
    using assms(6) unfolding p64 by arith
  from Allocate_n_spec[OF assms(1,2,4) _ assms(5) fit mp mn, of 0 ?N q] ps
  obtain h where a: "Allocate_n ?N q sz s1 =
        Some (map (\<lambda>i. Inr (p + of_nat (?w * i))) [0..<?N], s1\<lparr>heap := h\<rparr>)"
    and ps2: "pool_state p ?w ?N ?N (s1\<lparr>heap := h\<rparr>)" by auto
  have p0: "p \<noteq> 0" using assms(5) by auto
  have ex: "Allocate q sz (s1\<lparr>heap := h\<rparr>) = Some (Inl PoolExhausted, s1\<lparr>heap := h\<rparr>)"
    using Allocate_exhausted[OF assms(4) p0 _ _ ps2, of q] mp mn by simp
  have w0: "0 < ?w" using assms(1) by simp
  have "?w * ?N \<le> 2 ^ 64" using fit unfolding p64 by arith
  then have d: "distinct (map (\<lambda>i. p + of_nat (?w * i)) [0..<?N])"
    using w0 by (intro block_addresses_distinct)
  show ?thesis
    unfolding uc using i a d ex Allocate_failure_unchanged by blast
qed

theorem Allocate_serves_every_block_once_witness:
  "\<exists>s1 s2.
      InitializePool 4096 8 2
        \<lparr>mNumBlocksPerPool = 2, mPool = Map.empty, heap = (\<lambda>_. 0), owned = (\<lambda>_. False)\<rparr> = Some s1 \<and>
      Allocate_n 2 0 8 s1 = Some ([Inr 4096, Inr 4104], s2) \<and>
      Allocate 0 8 s2 = Some (Inl PoolExhausted, s2)"
proof -
  let ?s = "\<lparr>mNumBlocksPerPool = 2, mPool = Map.empty, heap = (\<lambda>_. 0), owned = (\<lambda>_. False)\<rparr>"
  have a: "8 \<le> unat (8 :: 64 word)" "unat (8 :: 64 word) < 2048"
    "1 \<le> unat (mNumBlocksPerPool ?s)" "unat (mNumBlocksPerPool ?s) \<le> 65535"
    "0 < unat (4096 :: 64 word)"
    "unat (4096 :: 64 word) + (unat (8 :: 64 word) * unat (mNumBlocksPerPool ?s) + 8 +
        unat (mNumBlocksPerPool ?s) div 8 + 1) \<le> 2 ^ 64"
    by simp_all
  have l: "[0..<2] = [0, Suc 0]" by (simp add: upt_rec)
  show ?thesis
    using Allocate_serves_every_block_once[OF a, of 0] by (simp add: l) blast
qed

text \<open>
  C4. Exhaustion of a pool of \<open>N\<close> blocks, at a concrete input inside the documented
  domain (block size at least the pointer width): the allocator built with one block per
  pool, then \<^verbatim>\<open>Allocate\<close> of a 2048-byte type, its pool created at 16384. The
  \<^verbatim>\<open>uint8_t\<close> stride \<open>2048 / 8 = 256\<close> wraps to 0, so \<open>InitializePool\<close> writes the head of
  the free list into block 0, while \<open>Allocate\<close> reads it from the slot at
  \<open>16384 + 2048\<close>, which was never written. Over zeroed memory the very first call
  reports exhaustion (no call succeeds on a pool of one block); over memory that held
  \<open>0xFF\<close> the first call takes the garbage for a block address and reads the bitmap
  outside the array.
\<close>

theorem Allocate_2048_byte_pool_serves_no_block:
  "(case MemoryManager_init 4096 8192 12288 (\<lambda>_. 0) 1 of
      None \<Rightarrow> None
    | Some s \<Rightarrow> map_option fst (Allocate_n 1 16384 2048 s)) = Some [Inl PoolExhausted] \<and>
   (case MemoryManager_init 4096 8192 12288 (\<lambda>_. 255) 1 of
      None \<Rightarrow> None
    | Some s \<Rightarrow> map_option fst (Allocate_n 1 16384 2048 s)) = None"
  by code_simp

section \<open>Double free\<close>



section \<open>Reuse of the block freed last\<close>



section \<open>The bit of the block taken from the free list\<close>

text \<open>
  C8 as stated fails: \<open>Allocate\<close> has no fatal branch. In the state reached by the
  constructor and one \<^verbatim>\<open>Allocate\<close> of a 12-byte type, the head of the free list is
  \<open>16384 + 8\<close>, its block index is \<open>8 / 12 = 0\<close>, the bit of index 0 is already 1, and the
  next \<open>Allocate\<close> returns that block as usual.
\<close>

theorem Allocate_bit_already_set_counterexample:
  "(case MemoryManager_init 4096 8192 12288 (\<lambda>_. 0) 2 of
      None \<Rightarrow> None
    | Some s0 \<Rightarrow>
        (case Allocate 16384 12 s0 of
           None \<Rightarrow> None
         | Some (r, s) \<Rightarrow>
             Some (r, free_list_head s 12, allocation_bit s 12 16392,
                   map_option fst (Allocate 0 12 s))))
   = Some (Inr 16384, Some 16392, Some True, Some (Inr 16392))"
  by code_simp

text \<open>
  C8, as amended. \<open>Allocate\<close> sets the bit of the block it takes from the head of the free
  list with a bitwise OR and never tests it: in every state with a pool for the size class,
  a non-null head \<open>h\<close> and the accesses inside owned arrays, whatever the value \<open>v\<close> of
  the bit before the call (0, or already 1), the call returns \<open>h\<close> and the bit is 1
  afterwards.
\<close>

theorem Allocate_sets_bit_whatever_it_was:
  assumes "mPool s sz = Some base" "base \<noteq> 0"
    and "free_list_head s sz = Some h" "h \<noteq> 0"
    and "allocation_bit s sz h = Some v"
    and "owned64 s h"
  shows "\<exists>s'. Allocate q sz s = Some (Inr h, s') \<and> allocation_bit s' sz h = Some True"
proof -
  let ?l = "lastElementPtr s base sz"
  let ?d = "desiredByte s base sz h"
  let ?m = "bit_mask (indexBlockAllocated base sz h)"
  have ol: "owned64 s ?l" and hd: "rd64 (heap s) ?l = h"
    using assms(1,3) by (auto simp add: free_list_head_def load64_def split: if_splits)
  have od: "owned s ?d"
    using assms(1,5) by (auto simp add: allocation_bit_def load8_def split: if_splits)
  let ?h1 = "(heap s)(?d := heap s ?d OR ?m)"
  let ?h2 = "wr64 ?h1 ?l (rd64 ?h1 h)"
  have a: "Allocate q sz s = Some (Inr h, s\<lparr>heap := ?h2\<rparr>)"
    unfolding Allocate_unfold[OF assms(1,2)] hd using ol od assms(4,6) by simp
  have n: "\<not> (?d - ?l < 8)" by (rule desiredByte_after_slot)
  have "?h2 ?d = heap s ?d OR ?m" using n by (simp add: wr64_def)
  then have "?h2 ?d AND ?m \<noteq> 0" by (simp only: bit_mask_set) simp
  then have b: "allocation_bit (s\<lparr>heap := ?h2\<rparr>) sz h = Some True"
    unfolding allocation_bit_heap using assms(1) od by simp
  show ?thesis using a b by blast
qed

theorem Allocate_sets_bit_whatever_it_was_witness:
  "\<exists>s'. Allocate 0 8
       \<lparr>mNumBlocksPerPool = 1, mPool = [8 \<mapsto> 4096], heap = (\<lambda>_. 0)(4105 := 16, 4112 := 128),
        owned = (\<lambda>a. a - 4096 < 18)\<rparr> = Some (Inr 4096, s') \<and>
      allocation_bit s' 8 4096 = Some True"
proof -
  let ?s = "\<lparr>mNumBlocksPerPool = 1, mPool = [8 \<mapsto> 4096], heap = (\<lambda>_. 0)(4105 := 16, 4112 := 128),
        owned = (\<lambda>a. a - 4096 < 18)\<rparr>"
  have a: "mPool ?s 8 = Some 4096" by simp
  have b: "(4096 :: 64 word) \<noteq> 0" by simp
  have c: "free_list_head ?s 8 = Some 4096"
    by (simp add: free_list_head_def lastElementPtr_def load64_def owned64_def rd64_def)
  have d: "allocation_bit ?s 8 4096 = Some True"
    by (simp add: allocation_bit_def desiredByte_def lastElementPtr_def indexBlockAllocated_def
        load8_def bit_mask_def)
  have e: "owned64 ?s 4096" by (simp add: owned64_def)
  show ?thesis
    using Allocate_sets_bit_whatever_it_was[OF a b c b d e] .
qed

section \<open>The pools the constructor creates\<close>

text \<open>
  What the constructor does for the block counts it handles correctly. For every
  \<open>numBlocksPerPool\<close> from 1 to 65535, when the three arrays \<^verbatim>\<open>new\<close> returns lie inside
  the address space and do not overlap, the constructor returns an allocator whose registry
  holds exactly the block sizes 8, 16 and 32, and each of the three pools is laid out with
  \<open>numBlocksPerPool\<close> blocks, none allocated: the array is owned, the slot behind the blocks
  holds the address of block 0, and block \<open>i\<close> holds the address of block \<open>i + 1\<close> (the
  last one null).
\<close>

theorem MemoryManager_init_three_pools:
  fixes p3 p4 p5 :: "64 word" and n :: "32 word"
  assumes n: "1 \<le> unat n" "unat n \<le> 65535"
    and f3: "unat p3 + array_len 8 (unat n) \<le> 2 ^ 64"
    and f4: "unat p4 + array_len 16 (unat n) \<le> 2 ^ 64"
    and f5: "unat p5 + array_len 32 (unat n) \<le> 2 ^ 64"
    and a34: "arrays_apart p3 (array_len 8 (unat n)) p4 (array_len 16 (unat n))"
    and a35: "arrays_apart p3 (array_len 8 (unat n)) p5 (array_len 32 (unat n))"
    and a45: "arrays_apart p4 (array_len 16 (unat n)) p5 (array_len 32 (unat n))"
  shows "\<exists>s. MemoryManager_init p3 p4 p5 raw n = Some s \<and>
           mNumBlocksPerPool s = n \<and>
           mPool s = [8 \<mapsto> p3, 16 \<mapsto> p4, 32 \<mapsto> p5] \<and>
           pool_state p3 8 (unat n) 0 s \<and>
           pool_state p4 16 (unat n) 0 s \<and>
           pool_state p5 32 (unat n) 0 s"
proof -
  let ?N = "unat n"
  let ?s0 = "\<lparr>mNumBlocksPerPool = n, mPool = Map.empty, heap = raw, owned = (\<lambda>a. False)\<rparr>"
  have nb: "?N < 65536" using n(2) by simp
  have uc: "(ucast n :: 16 word) = of_nat ?N" using ucast_32_16[OF nb] by simp
  have u8: "unat (8 :: 64 word) = 8" and u16: "unat (16 :: 64 word) = 16"
    and u32: "unat (32 :: 64 word) = 32" by simp_all
  have z8: "8 \<le> unat (8 :: 64 word)" "unat (8 :: 64 word) < 2048"
    and z16: "8 \<le> unat (16 :: 64 word)" "unat (16 :: 64 word) < 2048"
    and z32: "8 \<le> unat (32 :: 64 word)" "unat (32 :: 64 word) < 2048" by simp_all
  obtain s3 where i3: "InitializePool p3 8 (of_nat ?N) ?s0 = Some s3"
    using InitializePool_succeeds[OF z8 n] by blast
  from InitializePool_pool_state[OF z8 n i3]
  have ps3: "pool_state p3 8 ?N 0 s3" and m3: "mPool s3 = [8 \<mapsto> p3]"
    and n3: "mNumBlocksPerPool s3 = n" by simp_all
  obtain s4 where i4: "InitializePool p4 16 (of_nat ?N) s3 = Some s4"
    using InitializePool_succeeds[OF z16 n] by blast
  from InitializePool_pool_state[OF z16 n i4]
  have ps4: "pool_state p4 16 ?N 0 s4" and m4: "mPool s4 = [8 \<mapsto> p3, 16 \<mapsto> p4]"
    and n4: "mNumBlocksPerPool s4 = n" using m3 n3 by simp_all
  have ps34: "pool_state p3 8 ?N 0 s4"
    using InitializePool_other_pool[OF z16 n i4 ps3, of 8] f3 f4 a34 by (simp add: u8 u16)
  obtain s5 where i5: "InitializePool p5 32 (of_nat ?N) s4 = Some s5"
    using InitializePool_succeeds[OF z32 n] by blast
  from InitializePool_pool_state[OF z32 n i5]
  have ps5: "pool_state p5 32 ?N 0 s5" and m5: "mPool s5 = [8 \<mapsto> p3, 16 \<mapsto> p4, 32 \<mapsto> p5]"
    and n5: "mNumBlocksPerPool s5 = n" using m4 n4 by simp_all
  have ps35: "pool_state p3 8 ?N 0 s5"
    using InitializePool_other_pool[OF z32 n i5 ps34, of 8] f3 f5 a35 by (simp add: u8 u32)
  have ps45: "pool_state p4 16 ?N 0 s5"
    using InitializePool_other_pool[OF z32 n i5 ps4, of 16] f4 f5 a45 by (simp add: u16 u32)
  have e: "(2::64 word) ^ 3 = 8" "(2::64 word) ^ 4 = 16" "(2::64 word) ^ 5 = 32" by simp_all
  have "MemoryManager_init p3 p4 p5 raw n = Some s5"
    unfolding MemoryManager_init_def Let_def uc e
    by (simp only: i3 i4 i5 option.case)
  then show ?thesis using n5 m5 ps35 ps45 ps5 by blast
qed

theorem MemoryManager_init_three_pools_witness:
  "\<exists>s. MemoryManager_init 4096 8192 12288 (\<lambda>_. 0) 10 = Some s \<and>
        mNumBlocksPerPool s = 10 \<and>
        mPool s = [8 \<mapsto> 4096, 16 \<mapsto> 8192, 32 \<mapsto> 12288] \<and>
        pool_state 4096 8 10 0 s \<and> pool_state 8192 16 10 0 s \<and> pool_state 12288 32 10 0 s"
proof -
  have n: "1 \<le> unat (10 :: 32 word)" "unat (10 :: 32 word) \<le> 65535" by simp_all
  have f: "unat (4096 :: 64 word) + array_len 8 (unat (10 :: 32 word)) \<le> 2 ^ 64"
    "unat (8192 :: 64 word) + array_len 16 (unat (10 :: 32 word)) \<le> 2 ^ 64"
    "unat (12288 :: 64 word) + array_len 32 (unat (10 :: 32 word)) \<le> 2 ^ 64"
    by (simp_all add: array_len_def)
  have a: "arrays_apart 4096 (array_len 8 (unat (10 :: 32 word))) 8192 (array_len 16 (unat (10 :: 32 word)))"
    "arrays_apart 4096 (array_len 8 (unat (10 :: 32 word))) 12288 (array_len 32 (unat (10 :: 32 word)))"
    "arrays_apart 8192 (array_len 16 (unat (10 :: 32 word))) 12288 (array_len 32 (unat (10 :: 32 word)))"
    by (simp_all add: array_len_def arrays_apart_def)
  show ?thesis
    using MemoryManager_init_three_pools[OF n f a, of "\<lambda>_. 0"] by simp
qed

text \<open>
  C10. The pools the constructor creates, at two concrete block counts. The
  \<^verbatim>\<open>unsigned int\<close> argument is cut to the \<^verbatim>\<open>uint16_t\<close> parameter of \<open>InitializePool\<close>:
  for 65537 the pool of 8-byte blocks is laid out with one block in an array of 17 bytes
  (byte 16 is owned, byte 17 is not), while \<open>mNumBlocksPerPool\<close> stays 65537 and
  \<open>Allocate\<close> looks for the free-list head far outside the array. For 0 the array of the
  first pool has 9 bytes and \<open>InitializePool\<close> stores the head of the free list at bytes 8
  to 15 of it, so the construction itself leaves the array.
\<close>

theorem MemoryManager_init_block_count_narrowed:
  "(case MemoryManager_init 4096 8192 12288 (\<lambda>_. 0) 65537 of
      None \<Rightarrow> None
    | Some s \<Rightarrow> Some (mNumBlocksPerPool s, owned s (4096 + 16), owned s (4096 + 17),
                      map_option fst (Allocate 0 8 s)))
   = Some (65537, True, False, None) \<and>
   MemoryManager_init 4096 8192 12288 (\<lambda>_. 0) 0 = None"
  by code_simp

section \<open>Where the code departs from the specification\<close>

text \<open>
  C1. \<open>Free\<close> for a size class that was never created, at a concrete input: the allocator
  built with 10 blocks per pool has no entry for 24-byte blocks, and \<open>Free\<close> of a non-null
  pointer for that size reads the bitmap byte at address \<open>0 + 240 + 8 + 21\<close>, computed from
  the null entry \<^verbatim>\<open>mPool[24]\<close> has just inserted into the registry: an access outside
  every array.
\<close>

theorem Free_unknown_size_class_undefined:
  "(case MemoryManager_init 4096 8192 12288 (\<lambda>_. 0) 10 of
      None \<Rightarrow> None
    | Some s \<Rightarrow> Some (mPool s 24, mPool (snd (mPool_index 24 s)) 24, Free 24 4096 s))
   = Some (None, Some 0, None)"
  by code_simp

text \<open>
  C2. \<open>Free\<close> of an address beyond the pool, at a concrete input: after one allocation
  from the pool of ten 8-byte blocks at 4096, \<open>Free\<close> of \<open>4096 + 8000\<close> computes the block
  index 1000 and reads the bitmap byte at \<open>4096 + 80 + 8 + 125\<close>, outside the 90-byte array.
  And in a fresh pool of ten 8-byte blocks over memory that held \<open>0xFF\<close>, \<open>Free\<close> of
  \<open>4096 + 80\<close> (block index 10, the slot behind the blocks) finds its bit set, succeeds and
  makes that slot the head of the free list. The source has no range check.
\<close>

theorem Free_out_of_range_undefined:
  "(case MemoryManager_init 4096 8192 12288 (\<lambda>_. 0) 10 of
      None \<Rightarrow> None
    | Some s \<Rightarrow>
        (case Allocate 0 8 s of
           None \<Rightarrow> None
         | Some (r, s1) \<Rightarrow> Some (r, Free 8 (4096 + 8000) s1)))
   = Some (Inr 4096, None) \<and>
   (case InitializePool 4096 8 10
           \<lparr>mNumBlocksPerPool = 10, mPool = Map.empty, heap = (\<lambda>_. 255), owned = (\<lambda>_. False)\<rparr> of
      None \<Rightarrow> None
    | Some s \<Rightarrow>
        (case Free 8 (4096 + 80) s of
           None \<Rightarrow> None
         | Some (r, s1, b) \<Rightarrow> Some (r, free_list_head s 8, free_list_head s1 8)))
   = Some (Inr (), Some 4096, Some (4096 + 80))"
  by code_simp

text \<open>
  C3. The bitmap right after \<open>InitializePool\<close>, at a concrete input: the source never
  writes the bitmap bytes of the new array, so over memory that held \<open>0xFF\<close> the bitmap
  byte of a fresh one-block pool reads 255 and block 0 counts as allocated.
\<close>

theorem InitializePool_keeps_bitmap_garbage:
  "(case InitializePool 4096 8 1
           \<lparr>mNumBlocksPerPool = 1, mPool = Map.empty, heap = (\<lambda>_. 255), owned = (\<lambda>_. False)\<rparr> of
      None \<Rightarrow> None
    | Some s \<Rightarrow> Some (load8 s (4096 + 16), allocation_bit s 8 4096))
   = Some (Some 255, Some True)"
  by code_simp

text \<open>
  C7. Block addresses for a block size that is not a multiple of 8, at a concrete input:
  for 12-byte blocks the stride is \<open>12 / 8 = 1\<close> pointer, so the second block of the pool at
  16384 is handed out at \<open>16384 + 8\<close>, which is not \<open>16384 + i * 12\<close> for \<open>i < 2\<close> and lies
  inside the first block.
\<close>

theorem Allocate_12_byte_blocks_overlap:
  "(case MemoryManager_init 4096 8192 12288 (\<lambda>_. 0) 2 of
      None \<Rightarrow> None
    | Some s \<Rightarrow> map_option fst (Allocate_n 3 16384 12 s))
   = Some [Inr 16384, Inr 16392, Inl PoolExhausted]"
  by code_simp

section \<open>Free of a null pointer\<close>

text \<open>
  C9. For every allocator state, \<open>Free\<close> with a null \<^verbatim>\<open>*ppBlock\<close> takes the
  "Invalid pointer passed" return before it touches \<open>mPool\<close> or memory: the state (registry,
  free lists, bitmaps) and the pointer are returned as they were.
\<close>

theorem Free_null_is_noop:
  "Free dataTypeSize 0 s = Some (Inl InvalidPointer, s, 0)"
  by (simp add: Free_def)

end
